theory Spec2Isabelle
  imports Main
begin

section \<open>Values, requests and failures\<close>

text \<open>
  The module \<^verbatim>\<open>dispatch.plugins.dispatch_google.drive.drive\<close> passes untyped JSON-like
  mappings to and from the Google Drive client. They are modelled by \<open>jv\<close>; a Python
  \<^verbatim>\<open>dict\<close> is an association list (keys are unique in every dictionary built here).
\<close>

datatype jv =
    JNull
  | JBool bool
  | JNum int
  | JStr string
  | JList "jv list"
  | JDict "(string \<times> jv) list"

type_synonym kwargs = "(string \<times> jv) list"

text \<open>
  The exceptions the module raises or lets through. \<open>HttpError status content\<close> is
  googleapiclient's error: \<^verbatim>\<open>e.resp.status\<close> and \<^verbatim>\<open>e.content\<close>, the latter given as
  the value \<^verbatim>\<open>json.loads(e.content.decode())\<close> yields, \<open>None\<close> when decoding or parsing
  fails. \<open>HttpErrorClass\<close> is what \<^verbatim>\<open>raise HttpError\<close> raises: the statement names the
  class, not the caught instance \<^verbatim>\<open>e\<close>, so whatever reaches the caller carries neither
  the status nor the content of \<^verbatim>\<open>e\<close>. \<open>RetryError\<close> is tenacity's failure after the
  last permitted attempt. \<open>RequestFailed errors\<close> is
  \<^verbatim>\<open>Exception(f"Request failed. Errors: {errors}")\<close> and \<open>UploadFailed name path mimetype\<close>
  is \<^verbatim>\<open>Exception(f"Failed to upload file. Name: {name} Path: {path} MIMEType: {mimetype}")\<close>.
\<close>

datatype exc =
    HttpError int "jv option"
  | HttpErrorClass
  | TryAgain
  | RetryError
  | RequestFailed jv
  | UploadFailed string string string
  | ValueError
  | TypeError
  | KeyError string
  | AttributeError
  | UnboundLocalError
  | OtherError string

text \<open>
  The resource collections of the client (\<^verbatim>\<open>client.files()\<close>, \<^verbatim>\<open>client.drives()\<close>, ...)
  and a request: the collection, the method name handed to \<^verbatim>\<open>getattr\<close> and the keyword
  arguments.
\<close>

datatype resource = Files | Drives | Teamdrives | Permissions | Comments

datatype request = Request resource string kwargs

text \<open>
  What the module does to the outside world, in order: a request executed with its
  outcome, a sleep of the given length, and one \<^verbatim>\<open>next_chunk()\<close> of a resumable upload
  with its outcome.
\<close>

datatype event =
    Executed request "exc + jv"
  | Slept int
  | Chunk nat "exc + jv \<times> jv"

record 'w st =
  world :: 'w
  trace :: "event list"

text \<open>
  The remote service and the other collaborators are parameters: \<open>execute\<close> is
  \<^verbatim>\<open>getattr(client, func)(**kwargs).execute()\<close>, \<open>uuid4\<close> is \<^verbatim>\<open>str(uuid.uuid4())\<close>,
  \<open>media_file_upload\<close> is the constructor \<^verbatim>\<open>MediaFileUpload(path, mimetype=..., resumable=True)\<close>,
  \<open>files_create_media\<close> is \<^verbatim>\<open>client.files().create(media_body=media, body={"name": name})\<close>
  (it yields the handle of a resumable upload) and \<open>next_chunk\<close> is
  \<^verbatim>\<open>request.next_chunk()\<close> on such a handle. Each may fail and each may change the world.
\<close>

record 'w client =
  execute :: "request \<Rightarrow> 'w \<Rightarrow> (exc + jv) \<times> 'w"
  uuid4 :: "'w \<Rightarrow> string \<times> 'w"
  media_file_upload :: "string \<Rightarrow> string \<Rightarrow> 'w \<Rightarrow> exc option \<times> 'w"
  files_create_media :: "string \<Rightarrow> string \<Rightarrow> string \<Rightarrow> 'w \<Rightarrow> (exc + nat) \<times> 'w"
  next_chunk :: "nat \<Rightarrow> 'w \<Rightarrow> (exc + jv \<times> jv) \<times> 'w"

definition perform :: "'w client \<Rightarrow> request \<Rightarrow> 'w st \<Rightarrow> (exc + jv) \<times> 'w st" where
  "perform c req s =
     (case execute c req (world s) of
        (out, w) \<Rightarrow> (out, \<lparr>world = w, trace = trace s @ [Executed req out]\<rparr>))"

definition sleep :: "int \<Rightarrow> 'w st \<Rightarrow> 'w st" where
  "sleep d s = \<lparr>world = world s, trace = trace s @ [Slept d]\<rparr>"

fun requests :: "event list \<Rightarrow> request list" where
  "requests [] = []"
| "requests (Executed req out # evs) = req # requests evs"
| "requests (ev # evs) = requests evs"

fun succeeded :: "event list \<Rightarrow> request list" where
  "succeeded [] = []"
| "succeeded (Executed req (Inr v) # evs) = req # succeeded evs"
| "succeeded (ev # evs) = succeeded evs"

fun delays :: "event list \<Rightarrow> int list" where
  "delays [] = []"
| "delays (Slept d # evs) = d # delays evs"
| "delays (ev # evs) = delays evs"

section \<open>The retry decorator\<close>

text \<open>
  \<^verbatim>\<open>wait_exponential(multiplier, min, max)\<close> of tenacity: the wait before the next attempt
  is \<^verbatim>\<open>max(max(0, min), min(multiplier * 2 ** (attempt_number - 1), max))\<close>. (Older
  releases of tenacity use the exponent \<^verbatim>\<open>attempt_number\<close>; the bounds proved below
  hold for every attempt number, hence for either exponent.)
\<close>

definition wait_exponential :: "int \<Rightarrow> int \<Rightarrow> int \<Rightarrow> nat \<Rightarrow> int" where
  "wait_exponential multiplier mn mx attempt_number =
     max (max 0 mn) (min (multiplier * 2 ^ (attempt_number - 1)) mx)"

definition wait_none :: "nat \<Rightarrow> int" where
  "wait_none attempt_number = 0"

text \<open>
  \<^verbatim>\<open>@retry(stop=stop_after_attempt(n), retry=retry_if_exception_type(TryAgain), wait=w)\<close>:
  the body runs; a result or an exception other than \<^verbatim>\<open>TryAgain\<close> is handed to the
  caller; after a \<^verbatim>\<open>TryAgain\<close> the call stops with \<^verbatim>\<open>RetryError\<close> once the attempt
  number has reached \<open>n\<close>, and otherwise sleeps \<open>w attempt_number\<close> and runs the body
  again.
\<close>

function retrying ::
  "nat \<Rightarrow> (nat \<Rightarrow> int) \<Rightarrow> ('w st \<Rightarrow> (exc + 'a) \<times> 'w st) \<Rightarrow> nat \<Rightarrow> 'w st \<Rightarrow> (exc + 'a) \<times> 'w st"
where
  "retrying stop_after wait body attempt_number s =
     (case body s of
        (Inr v, s1) \<Rightarrow> (Inr v, s1)
      | (Inl e, s1) \<Rightarrow>
          if e \<noteq> TryAgain then (Inl e, s1)
          else if stop_after \<le> attempt_number then (Inl RetryError, s1)
          else retrying stop_after wait body (Suc attempt_number) (sleep (wait attempt_number) s1))"
  by pat_completeness auto
termination
  by (relation "measure (\<lambda>(stop_after, wait, body, attempt_number, s). stop_after - attempt_number)") auto

declare retrying.simps [simp del]

section \<open>The call executor\<close>

definition transient_statuses :: "int list" where
  "transient_statuses = [300, 429, 500, 502, 503, 504]"

text \<open>The \<^verbatim>\<open>except HttpError as e\<close> clause of \<^verbatim>\<open>make_call\<close>; other exceptions pass.\<close>

fun make_call_except :: "bool \<Rightarrow> exc \<Rightarrow> exc" where
  "make_call_except propagate_errors (HttpError status content) =
     (if status \<in> set transient_statuses then TryAgain
      else if propagate_errors then HttpErrorClass
      else (case content of None \<Rightarrow> ValueError | Some errors \<Rightarrow> RequestFailed errors))"
| "make_call_except propagate_errors e = e"

definition make_call_body ::
  "'w client \<Rightarrow> resource \<Rightarrow> string \<Rightarrow> bool \<Rightarrow> kwargs \<Rightarrow> 'w st \<Rightarrow> (exc + jv) \<times> 'w st"
where
  "make_call_body c res func propagate_errors kw s =
     (case perform c (Request res func kw) s of
        (Inr v, s1) \<Rightarrow> (Inr v, s1)
      | (Inl e, s1) \<Rightarrow> (Inl (make_call_except propagate_errors e), s1))"

definition make_call ::
  "'w client \<Rightarrow> resource \<Rightarrow> string \<Rightarrow> bool \<Rightarrow> kwargs \<Rightarrow> 'w st \<Rightarrow> (exc + jv) \<times> 'w st"
where
  "make_call c res func propagate_errors kw s =
     retrying 5 (wait_exponential 1 2 5) (make_call_body c res func propagate_errors kw) 1 s"

section \<open>Python operations on the exchanged values\<close>

text \<open>Truth value of a Python object (\<^verbatim>\<open>not next_token\<close>, \<^verbatim>\<open>while not response\<close>).\<close>

fun truthy :: "jv \<Rightarrow> bool" where
  "truthy JNull = False"
| "truthy (JBool b) = b"
| "truthy (JNum n) = (n \<noteq> 0)"
| "truthy (JStr s) = (s \<noteq> [])"
| "truthy (JList xs) = (xs \<noteq> [])"
| "truthy (JDict kvs) = (kvs \<noteq> [])"

text \<open>\<^verbatim>\<open>d.get(k)\<close>: only a mapping has the method; a missing key gives \<^verbatim>\<open>None\<close>.\<close>

fun py_get :: "string \<Rightarrow> jv \<Rightarrow> exc + jv" where
  "py_get k (JDict kvs) = (case map_of kvs k of None \<Rightarrow> Inr JNull | Some v \<Rightarrow> Inr v)"
| "py_get k v = Inl AttributeError"

text \<open>\<^verbatim>\<open>d[k]\<close> with a string key: \<^verbatim>\<open>KeyError\<close> on a mapping without the key,
  \<^verbatim>\<open>TypeError\<close> on every other value.\<close>

fun py_item :: "string \<Rightarrow> jv \<Rightarrow> exc + jv" where
  "py_item k (JDict kvs) = (case map_of kvs k of None \<Rightarrow> Inl (KeyError k) | Some v \<Rightarrow> Inr v)"
| "py_item k v = Inl TypeError"

text \<open>Iterating a value (\<^verbatim>\<open>for x in v\<close>, \<^verbatim>\<open>results += v\<close>, \<^verbatim>\<open>",".join(v)\<close>): a list
  gives its elements, a string its characters, a mapping its keys; nothing else is
  iterable.\<close>

fun py_iter :: "jv \<Rightarrow> exc + jv list" where
  "py_iter (JList xs) = Inr xs"
| "py_iter (JStr s) = Inr (map (\<lambda>ch. JStr [ch]) s)"
| "py_iter (JDict kvs) = Inr (map (\<lambda>kv. JStr (fst kv)) kvs)"
| "py_iter v = Inl TypeError"

text \<open>\<^verbatim>\<open>sep.join(parts)\<close> on strings, and \<^verbatim>\<open>s.split(",")\<close>.\<close>

fun join :: "string \<Rightarrow> string list \<Rightarrow> string" where
  "join sep [] = []"
| "join sep [x] = x"
| "join sep (x # y # ys) = x @ sep @ join sep (y # ys)"



fun split_comma :: "string \<Rightarrow> string list" where
  "split_comma [] = [[]]"
| "split_comma (ch # s) =
     (if ch = CHR '','' then [] # split_comma s
      else (case split_comma s of [] \<Rightarrow> [[ch]] | w # ws \<Rightarrow> (ch # w) # ws))"

text \<open>\<^verbatim>\<open>kwargs.update({k: v})\<close> and \<^verbatim>\<open>kwargs[k] = v\<close>: an existing key keeps its place.\<close>

fun kw_update :: "string \<Rightarrow> jv \<Rightarrow> kwargs \<Rightarrow> kwargs" where
  "kw_update k v [] = [(k, v)]"
| "kw_update k v ((k', v') # kw) = (if k' = k then (k, v) # kw else (k', v') # kw_update k v kw)"

section \<open>The pagination decorator\<close>

text \<open>The block under \<^verbatim>\<open>if kwargs.get("fields")\<close>: a truthy \<^verbatim>\<open>fields\<close> that is not a
  string has no \<^verbatim>\<open>split\<close>.\<close>

definition add_next_page_token :: "kwargs \<Rightarrow> exc + kwargs" where
  "add_next_page_token kw =
     (case map_of kw ''fields'' of
        None \<Rightarrow> Inr kw
      | Some v \<Rightarrow>
          if \<not> truthy v then Inr kw
          else (case v of
                  JStr fs \<Rightarrow>
                    (let fields = split_comma fs;
                         fields1 = (if ''nextPageToken'' \<in> set fields then fields
                                    else fields @ [''nextPageToken''])
                     in Inr (kw_update ''fields'' (JStr (join '','' fields1)) kw))
                | _ \<Rightarrow> Inl AttributeError))"

text \<open>\<^verbatim>\<open>response.get(data_key)\<close> as the items appended by \<^verbatim>\<open>results += ...\<close>, and
  \<^verbatim>\<open>response.get("nextPageToken")\<close>.\<close>

definition read_page :: "string \<Rightarrow> jv \<Rightarrow> exc + jv list \<times> jv" where
  "read_page data_key response =
     (case py_get data_key response of
        Inl e \<Rightarrow> Inl e
      | Inr page \<Rightarrow>
          (case py_iter page of
             Inl e \<Rightarrow> Inl e
           | Inr items \<Rightarrow>
               (case py_get ''nextPageToken'' response of
                  Inl e \<Rightarrow> Inl e
                | Inr next_token \<Rightarrow> Inr (items, next_token))))"

text \<open>
  The \<^verbatim>\<open>while True\<close> loop of \<^verbatim>\<open>decorated_function\<close>. Nothing bounds the number of
  pages, so the loop is a partial function: \<open>None\<close> is a run that never returns.
\<close>

partial_function (option) paginated_loop ::
  "string \<Rightarrow> (kwargs \<Rightarrow> 's \<Rightarrow> (exc + jv) \<times> 's) \<Rightarrow> int \<Rightarrow> kwargs \<Rightarrow> jv list \<Rightarrow> 's
     \<Rightarrow> ((exc + jv list) \<times> 's) option"
where
  "paginated_loop data_key func limit kw results s =
     (case add_next_page_token kw of
        Inl e \<Rightarrow> Some (Inl e, s)
      | Inr kw1 \<Rightarrow>
          (case func kw1 s of
             (Inl e, s1) \<Rightarrow> Some (Inl e, s1)
           | (Inr response, s1) \<Rightarrow>
               (case read_page data_key response of
                  Inl e \<Rightarrow> Some (Inl e, s1)
                | Inr (items, next_token) \<Rightarrow>
                    if \<not> truthy next_token then Some (Inr (results @ items), s1)
                    else if limit < int (length (results @ items)) then Some (Inr (results @ items), s1)
                    else paginated_loop data_key func limit
                           (kw_update ''pageToken'' next_token kw1) (results @ items) s1)))"

text \<open>
  \<^verbatim>\<open>paginated(data_key)(func)\<close>. The keyword \<^verbatim>\<open>limit\<close> is popped before anything else
  and is given here as the integer \<^verbatim>\<open>int(...)\<close> yields, \<open>None\<close> when the caller passes
  none; the other keyword arguments are \<open>kw\<close>, and positional arguments are bound in
  \<open>func\<close>.
\<close>

definition paginated ::
  "string \<Rightarrow> (kwargs \<Rightarrow> 's \<Rightarrow> (exc + jv) \<times> 's) \<Rightarrow> int option \<Rightarrow> kwargs \<Rightarrow> 's
     \<Rightarrow> ((exc + jv list) \<times> 's) option"
where
  "paginated data_key func limit kw s =
     paginated_loop data_key func (case limit of None \<Rightarrow> 250 | Some n \<Rightarrow> n) kw [] s"

section \<open>Chunked upload\<close>

text \<open>
  \<^verbatim>\<open>@retry(wait=w)\<close> with tenacity's defaults \<^verbatim>\<open>stop=stop_never\<close> and
  \<^verbatim>\<open>retry=retry_if_exception_type()\<close>: every exception of the body leads to a sleep and
  another attempt, without a bound.
\<close>

partial_function (option) retrying_forever ::
  "(nat \<Rightarrow> int) \<Rightarrow> ('w st \<Rightarrow> (exc + 'a) \<times> 'w st) \<Rightarrow> nat \<Rightarrow> 'w st \<Rightarrow> ((exc + 'a) \<times> 'w st) option"
where
  "retrying_forever wait body attempt_number s =
     (case body s of
        (Inr v, s1) \<Rightarrow> Some (Inr v, s1)
      | (Inl e, s1) \<Rightarrow> retrying_forever wait body (Suc attempt_number) (sleep (wait attempt_number) s1))"

text \<open>
  The body of \<^verbatim>\<open>upload_chunk\<close>. Its \<^verbatim>\<open>except HttpError\<close> clause re-raises the statuses
  500, 502, 503 and 504 and has no other branch: after any other status the function
  falls off its end and returns \<^verbatim>\<open>None\<close>, here \<open>Inr None\<close>.
\<close>

fun upload_chunk_except :: "exc \<Rightarrow> exc + (jv \<times> jv) option" where
  "upload_chunk_except (HttpError status content) =
     (if status \<in> set [500, 502, 503, 504] then Inl (HttpError status content) else Inr None)"
| "upload_chunk_except e = Inl e"

definition upload_chunk_body :: "'w client \<Rightarrow> nat \<Rightarrow> 'w st \<Rightarrow> (exc + (jv \<times> jv) option) \<times> 'w st" where
  "upload_chunk_body c request s =
     (case next_chunk c request (world s) of
        (out, w) \<Rightarrow>
          (case out of Inr x \<Rightarrow> Inr (Some x) | Inl e \<Rightarrow> upload_chunk_except e,
           \<lparr>world = w, trace = trace s @ [Chunk request out]\<rparr>))"

definition upload_chunk ::
  "'w client \<Rightarrow> nat \<Rightarrow> 'w st \<Rightarrow> ((exc + (jv \<times> jv) option) \<times> 'w st) option"
where
  "upload_chunk c request s =
     retrying_forever (wait_exponential 1 0 10) (upload_chunk_body c request) 1 s"

text \<open>
  The loop \<^verbatim>\<open>while not response: _, response = upload_chunk(request)\<close>: unpacking
  \<^verbatim>\<open>None\<close> is a \<^verbatim>\<open>TypeError\<close>.
\<close>

partial_function (option) upload_loop ::
  "'w client \<Rightarrow> nat \<Rightarrow> 'w st \<Rightarrow> ((exc + jv) \<times> 'w st) option"
where
  "upload_loop c request s =
     (case upload_chunk c request s of
        None \<Rightarrow> None
      | Some (Inl e, s1) \<Rightarrow> Some (Inl e, s1)
      | Some (Inr None, s1) \<Rightarrow> Some (Inl TypeError, s1)
      | Some (Inr (Some (status, response)), s1) \<Rightarrow>
          if truthy response then Some (Inr response, s1) else upload_loop c request s1)"

text \<open>The \<^verbatim>\<open>except HttpError as e\<close> clause of \<^verbatim>\<open>upload_file\<close>.\<close>

fun upload_file_except :: "string \<Rightarrow> string \<Rightarrow> string \<Rightarrow> exc \<Rightarrow> exc" where
  "upload_file_except path name mimetype (HttpError status content) =
     (if status \<in> set [404] then TryAgain else UploadFailed name path mimetype)"
| "upload_file_except path name mimetype e = e"

definition upload_file ::
  "'w client \<Rightarrow> string \<Rightarrow> string \<Rightarrow> string \<Rightarrow> 'w st \<Rightarrow> ((exc + jv) \<times> 'w st) option"
where
  "upload_file c path name mimetype s =
     (case media_file_upload c path mimetype (world s) of
        (Some e, w) \<Rightarrow> Some (Inl e, \<lparr>world = w, trace = trace s\<rparr>)
      | (None, w) \<Rightarrow>
          (case files_create_media c path mimetype name w of
             (Inl e, w1) \<Rightarrow>
               Some (Inl (upload_file_except path name mimetype e), \<lparr>world = w1, trace = trace s\<rparr>)
           | (Inr request, w1) \<Rightarrow>
               (case upload_loop c request \<lparr>world = w1, trace = trace s\<rparr> of
                  None \<Rightarrow> None
                | Some (Inl e, s1) \<Rightarrow> Some (Inl (upload_file_except path name mimetype e), s1)
                | Some (Inr response, s1) \<Rightarrow> Some (Inr response, s1))))"

section \<open>Operations on files, drives and permissions\<close>

datatype UserTypes = UserTypes_user | UserTypes_group | UserTypes_domain | UserTypes_anyone

datatype Roles =
    Roles_owner
  | Roles_organizer
  | Roles_file_organizer
  | Roles_writer
  | Roles_commenter
  | Roles_reader

fun UserTypes_value :: "UserTypes \<Rightarrow> string" where
  "UserTypes_value UserTypes_user = ''user''"
| "UserTypes_value UserTypes_group = ''group''"
| "UserTypes_value UserTypes_domain = ''domain''"
| "UserTypes_value UserTypes_anyone = ''anyone''"

fun Roles_value :: "Roles \<Rightarrow> string" where
  "Roles_value Roles_owner = ''owner''"
| "Roles_value Roles_organizer = ''organizer''"
| "Roles_value Roles_file_organizer = ''fileOrganizer''"
| "Roles_value Roles_writer = ''writer''"
| "Roles_value Roles_commenter = ''commenter''"
| "Roles_value Roles_reader = ''reader''"


definition add_permission ::
  "'w client \<Rightarrow> string \<Rightarrow> jv \<Rightarrow> Roles \<Rightarrow> UserTypes \<Rightarrow> 'w st \<Rightarrow> (exc + jv) \<times> 'w st"
where
  "add_permission c email team_drive_or_file_id role user_type s =
     make_call c Permissions ''create'' False
       [(''fileId'', team_drive_or_file_id),
        (''body'', JDict [(''type'', JStr (UserTypes_value user_type)),
                          (''role'', JStr (Roles_value role)),
                          (''emailAddress'', JStr email)]),
        (''sendNotificationEmail'', JBool False),
        (''fields'', JStr ''id''),
        (''supportsTeamDrives'', JBool True)] s"

definition delete_file :: "'w client \<Rightarrow> jv \<Rightarrow> jv \<Rightarrow> 'w st \<Rightarrow> (exc + jv) \<times> 'w st" where
  "delete_file c team_drive_id file_id s =
     make_call c Files ''delete'' False
       [(''fileId'', file_id), (''supportsTeamDrives'', JBool True)] s"











text \<open>
  The loop of \<^verbatim>\<open>create_team_drive\<close> over the members, followed by
  \<^verbatim>\<open>return drive_data\<close>. \<open>drive_data\<close> is \<open>None\<close> when the name is unbound: the
  \<^verbatim>\<open>except\<close> clause before the loop binds nothing.
\<close>

fun add_members ::
  "'w client \<Rightarrow> jv option \<Rightarrow> Roles \<Rightarrow> string list \<Rightarrow> 'w st \<Rightarrow> (exc + jv) \<times> 'w st"
where
  "add_members c drive_data role [] s =
     (case drive_data of None \<Rightarrow> (Inl UnboundLocalError, s) | Some d \<Rightarrow> (Inr d, s))"
| "add_members c drive_data role (member # members) s =
     (case drive_data of
        None \<Rightarrow> (Inl UnboundLocalError, s)
      | Some d \<Rightarrow>
          (case py_item ''id'' d of
             Inl e \<Rightarrow> (Inl e, s)
           | Inr drive_id \<Rightarrow>
               (case add_permission c member drive_id role UserTypes_user s of
                  (Inl e, s1) \<Rightarrow> (Inl e, s1)
                | (Inr v, s1) \<Rightarrow> add_members c drive_data role members s1)))"

text \<open>
  The body of \<^verbatim>\<open>create_team_drive\<close>. Its \<^verbatim>\<open>except HttpError as e\<close> clause raises
  \<^verbatim>\<open>TryAgain\<close> for the status 409 and otherwise falls through to the loop.
\<close>

definition create_team_drive_body ::
  "'w client \<Rightarrow> string \<Rightarrow> string list \<Rightarrow> Roles \<Rightarrow> 'w st \<Rightarrow> (exc + jv) \<times> 'w st"
where
  "create_team_drive_body c name members role s =
     (case uuid4 c (world s) of
        (request_id, w) \<Rightarrow>
          (case make_call c Drives ''create'' False
                  [(''body'', JDict [(''name'', JStr name)]), (''requestId'', JStr request_id)]
                  \<lparr>world = w, trace = trace s\<rparr> of
             (Inr drive_data, s1) \<Rightarrow> add_members c (Some drive_data) role members s1
           | (Inl e, s1) \<Rightarrow>
               (case e of
                  HttpError status content \<Rightarrow>
                    if status \<in> set [409] then (Inl TryAgain, s1)
                    else add_members c None role members s1
                | _ \<Rightarrow> (Inl e, s1))))"

definition create_team_drive ::
  "'w client \<Rightarrow> string \<Rightarrow> string list \<Rightarrow> Roles \<Rightarrow> 'w st \<Rightarrow> (exc + jv) \<times> 'w st"
where
  "create_team_drive c name members role s =
     retrying 5 wait_none (create_team_drive_body c name members role) 1 s"

section \<open>Predicates used in the proofs\<close>

text \<open>
  An attempt on a request: a body that executes exactly that request once, and returns
  its response when it succeeds and some exception other than \<open>HttpError\<close> when it
  fails.
\<close>

definition attempt_of :: "request \<Rightarrow> ('w st \<Rightarrow> (exc + jv) \<times> 'w st) \<Rightarrow> bool" where
  "attempt_of req body \<longleftrightarrow>
     (\<forall>s r s1. body s = (r, s1) \<longrightarrow>
        (\<exists>out. trace s1 = trace s @ [Executed req out] \<and>
               (\<forall>v. (r = Inr v) = (out = Inr v)) \<and>
               (\<forall>status content. r \<noteq> Inl (HttpError status content))))"

section \<open>Remote services used to exercise the theorems\<close>

text \<open>
  A remote without state: every request is answered by \<open>answer\<close> and every
  \<^verbatim>\<open>next_chunk()\<close> by \<open>chunk\<close>.
\<close>

definition stateless :: "(request \<Rightarrow> exc + jv) \<Rightarrow> (exc + jv \<times> jv) \<Rightarrow> unit client" where
  "stateless answer chunk =
     \<lparr>execute = (\<lambda>req w. (answer req, w)),
      uuid4 = (\<lambda>w. (''6f1c2a0e-5b7d-4c3a-9e21-0d4b8a7c1f55'', w)),
      media_file_upload = (\<lambda>path mimetype w. (None, w)),
      files_create_media = (\<lambda>path mimetype name w. (Inr 0, w)),
      next_chunk = (\<lambda>request w. (chunk, w))\<rparr>"

definition start :: "unit st" where
  "start = \<lparr>world = (), trace = []\<rparr>"

definition unavailable :: "unit client" where
  "unavailable = stateless (\<lambda>req. Inl (HttpError 503 None)) (Inl (HttpError 503 None))"

definition forbidden :: "unit client" where
  "forbidden =
     stateless (\<lambda>req. Inl (HttpError 403 (Some (JDict [(''error'', JStr ''forbidden'')]))))
       (Inl (HttpError 403 None))"

section \<open>Pages, in the words of the specification\<close>

text \<open>
  A page is a sequence of result records plus a continuation token. \<open>successive_pages\<close>
  relates a wrapped function, the keyword arguments and the state before the first call
  to the pages that successive calls return and the state after the last one: each call
  but the first passes the token of the page before it as \<^verbatim>\<open>pageToken\<close>, and a page is
  only followed by another when it carries a token.
\<close>

inductive successive_pages ::
  "string \<Rightarrow> (kwargs \<Rightarrow> 's \<Rightarrow> (exc + jv) \<times> 's) \<Rightarrow> kwargs \<Rightarrow> 's \<Rightarrow> (jv list \<times> jv) list \<Rightarrow> 's \<Rightarrow> bool"
  for data_key :: string and func :: "kwargs \<Rightarrow> 's \<Rightarrow> (exc + jv) \<times> 's"
where
  last_page:
    "add_next_page_token kw = Inr kw1 \<Longrightarrow> func kw1 s = (Inr response, s1) \<Longrightarrow>
     read_page data_key response = Inr (items, next_token) \<Longrightarrow>
     successive_pages data_key func kw s [(items, next_token)] s1"
| next_page:
    "add_next_page_token kw = Inr kw1 \<Longrightarrow> func kw1 s = (Inr response, s1) \<Longrightarrow>
     read_page data_key response = Inr (items, next_token) \<Longrightarrow> truthy next_token \<Longrightarrow>
     successive_pages data_key func (kw_update ''pageToken'' next_token kw1) s1 pages s' \<Longrightarrow>
     successive_pages data_key func kw s ((items, next_token) # pages) s'"

text \<open>
  The stop rule of the specification at page \<open>k\<close> (counted from 0) of a run that starts
  with \<open>n\<close> accumulated items: the page carries no continuation token, or the accumulated
  count exceeds the limit.
\<close>

definition stop_here :: "int \<Rightarrow> nat \<Rightarrow> (jv list \<times> jv) list \<Rightarrow> nat \<Rightarrow> bool" where
  "stop_here limit n pages k \<longleftrightarrow>
     \<not> truthy (snd (pages ! k)) \<or>
     limit < int (n + length (concat (map fst (take (Suc k) pages))))"

text \<open>A run ends at the first page at which the stop rule holds.\<close>

definition ends_at_first_stop :: "int \<Rightarrow> nat \<Rightarrow> (jv list \<times> jv) list \<Rightarrow> bool" where
  "ends_at_first_stop limit n pages \<longleftrightarrow>
     pages \<noteq> [] \<and> stop_here limit n pages (length pages - 1) \<and>
     (\<forall>k < length pages - 1. \<not> stop_here limit n pages k)"

text \<open>
  A listing source of three pages of 100 items each: the first two pages carry the
  continuation tokens \<open>''t1''\<close> and \<open>''t2''\<close>, the third carries none.
\<close>

definition hundred :: "nat \<Rightarrow> jv" where
  "hundred k = JList (map (\<lambda>i. JNum (int i)) [100 * k ..< 100 * k + 100])"

definition three_pages :: "kwargs \<Rightarrow> unit \<Rightarrow> (exc + jv) \<times> unit" where
  "three_pages kw s =
     (case map_of kw ''pageToken'' of
        None \<Rightarrow> (Inr (JDict [(''files'', hundred 0), (''nextPageToken'', JStr ''t1'')]), s)
      | Some tok \<Rightarrow>
          if tok = JStr ''t1'' then
            (Inr (JDict [(''files'', hundred 1), (''nextPageToken'', JStr ''t2'')]), s)
          else if tok = JStr ''t2'' then (Inr (JDict [(''files'', hundred 2)]), s)
          else (Inl (HttpError 400 None), s))"

section \<open>The requests that the operations send\<close>

definition delete_file_request :: "jv \<Rightarrow> request" where
  "delete_file_request file_id =
     Request Files ''delete'' [(''fileId'', file_id), (''supportsTeamDrives'', JBool True)]"








text \<open>The collection and the method of a request.\<close>

fun kind :: "request \<Rightarrow> resource \<times> string" where
  "kind (Request res func kw) = (res, func)"





text \<open>The query of \<open>archive_team_drive\<close>:
  \<^verbatim>\<open>mimeType != 'application/vnd.google-apps.folder'\<close>, 48 characters, the last one the
  closing quote.\<close>

definition non_folder_query :: jv where
  "non_folder_query = JStr (''mimeType != 'application/vnd.google-apps.folder'' @ [CHR 0x27])"





text \<open>
  A remote on which the drive name is taken (every request is answered 409 with a JSON
  body), a remote whose resumable upload answers 404 to every chunk, and a remote that
  answers 404 when the upload request is built.
\<close>

definition name_taken :: "unit client" where
  "name_taken =
     stateless (\<lambda>req. Inl (HttpError 409 (Some (JDict [(''error'', JStr ''conflict'')]))))
       (Inl (HttpError 409 None))"

definition chunk_not_found :: "unit client" where
  "chunk_not_found = stateless (\<lambda>req. Inl (HttpError 404 None)) (Inl (HttpError 404 None))"

definition upload_not_found :: "unit client" where
  "upload_not_found =
     chunk_not_found\<lparr>files_create_media := (\<lambda>path mimetype name w. (Inl (HttpError 404 None), w))\<rparr>"

definition add_permission_request :: "string \<Rightarrow> jv \<Rightarrow> Roles \<Rightarrow> request" where
  "add_permission_request email team_drive_or_file_id role =
     Request Permissions ''create''
       [(''fileId'', team_drive_or_file_id),
        (''body'', JDict [(''type'', JStr ''user''),
                          (''role'', JStr (Roles_value role)),
                          (''emailAddress'', JStr email)]),
        (''sendNotificationEmail'', JBool False),
        (''fields'', JStr ''id''),
        (''supportsTeamDrives'', JBool True)]"

section \<open>Properties of the call executor\<close>

lemma requests_append: "requests (xs @ ys) = requests xs @ requests ys"
  by (induction xs rule: requests.induct) simp_all

lemma succeeded_append: "succeeded (xs @ ys) = succeeded xs @ succeeded ys"
  by (induction xs rule: succeeded.induct) simp_all

lemma delays_append: "delays (xs @ ys) = delays xs @ delays ys"
  by (induction xs rule: delays.induct) simp_all

lemma wait_exponential_bounds:
  "2 \<le> wait_exponential 1 2 5 n \<and> wait_exponential 1 2 5 n \<le> 5"
  by (simp add: wait_exponential_def)

lemma make_call_body_trace:
  assumes "make_call_body c res func p kw s = (r, s1)"
  shows "\<exists>out. trace s1 = trace s @ [Executed (Request res func kw) out] \<and>
           r = (case out of Inr v \<Rightarrow> Inr v | Inl e \<Rightarrow> Inl (make_call_except p e))"
proof -
  obtain out w where e: "execute c (Request res func kw) (world s) = (out, w)"
    by (cases "execute c (Request res func kw) (world s)")
  show ?thesis
    using assms e by (cases out) (auto simp: make_call_body_def perform_def)
qed

lemma make_call_except_not_HttpError: "make_call_except p e \<noteq> HttpError status content"
  by (cases e) (auto split: option.splits)

lemma attempt_of_make_call_body:
  "attempt_of (Request res func kw) (make_call_body c res func p kw)"
  unfolding attempt_of_def
proof (intro allI impI)
  fix s r s1
  assume "make_call_body c res func p kw s = (r, s1)"
  from make_call_body_trace[OF this] obtain out where
    o: "trace s1 = trace s @ [Executed (Request res func kw) out]"
       "r = (case out of Inr v \<Rightarrow> Inr v | Inl e \<Rightarrow> Inl (make_call_except p e))"
    by blast
  show "\<exists>out. trace s1 = trace s @ [Executed (Request res func kw) out] \<and>
               (\<forall>v. (r = Inr v) = (out = Inr v)) \<and>
               (\<forall>status content. r \<noteq> Inl (HttpError status content))"
    using o by (cases out) (auto simp: make_call_except_not_HttpError)
qed

lemma retrying_trace:
  assumes "attempt_of req body" "retrying n w body k s = (r, s')"
  shows "\<exists>evs. trace s' = trace s @ evs \<and>
           requests evs \<noteq> [] \<and> set (requests evs) \<subseteq> {req} \<and> length (requests evs) \<le> Suc (n - k) \<and>
           succeeded evs = (if isl r then [] else [req]) \<and>
           set (delays evs) \<subseteq> range w \<and> r \<noteq> Inl TryAgain \<and>
           (\<forall>status content. r \<noteq> Inl (HttpError status content)) \<and>
           (\<forall>v. r = Inr v \<longrightarrow> Executed req (Inr v) \<in> set evs)"
  using assms
proof (induction n w body k s rule: retrying.induct)
  case (1 n w body k s)
  note att = "1.prems"(1) and run = "1.prems"(2)
  obtain r1 s1 where b: "body s = (r1, s1)" by (cases "body s")
  from att[unfolded attempt_of_def, rule_format, OF b] obtain out where
    t: "trace s1 = trace s @ [Executed req out]" and i: "\<forall>v. (r1 = Inr v) = (out = Inr v)"
    and h: "\<forall>status content. r1 \<noteq> Inl (HttpError status content)"
    by auto
  show ?case
  proof (cases r1)
    case (Inr v)
    with b run have "r = Inr v" "s' = s1" by (simp_all add: retrying.simps)
    moreover from Inr i have "out = Inr v" by simp
    ultimately show ?thesis using t by auto
  next
    case (Inl e)
    from Inl i obtain e' where o: "out = Inl e'" by (cases out) auto
    show ?thesis
    proof (cases "e = TryAgain")
      case False
      with b Inl run have "r = Inl e" "s' = s1" by (simp_all add: retrying.simps)
      then show ?thesis using t o False h Inl by auto
    next
      case True
      show ?thesis
      proof (cases "n \<le> k")
        case le: True
        with b Inl True run have "r = Inl RetryError" "s' = s1" by (simp_all add: retrying.simps)
        then show ?thesis using t o by auto
      next
        case gt: False
        with b Inl True run have rec: "retrying n w body (Suc k) (sleep (w k) s1) = (r, s')"
          by (simp add: retrying.simps)
        have nt: "\<not> e \<noteq> TryAgain" using True by simp
        from "1.IH"[OF b[symmetric] Inl nt gt att rec]
        obtain evs where e: "trace s' = trace (sleep (w k) s1) @ evs"
          "requests evs \<noteq> []" "set (requests evs) \<subseteq> {req}" "length (requests evs) \<le> Suc (n - Suc k)"
          "succeeded evs = (if isl r then [] else [req])" "set (delays evs) \<subseteq> range w" "r \<noteq> Inl TryAgain"
          "\<forall>status content. r \<noteq> Inl (HttpError status content)"
          "\<forall>v. r = Inr v \<longrightarrow> Executed req (Inr v) \<in> set evs"
          by auto
        let ?evs = "Executed req out # Slept (w k) # evs"
        have "trace s' = trace s @ ?evs" using e(1) t by (simp add: sleep_def)
        moreover have "length (requests ?evs) \<le> Suc (n - k)" using e(4) gt by simp
        ultimately show ?thesis using e o by auto
      qed
    qed
  qed
qed

text \<open>What one call through the executor does to the trace, whatever the remote answers.\<close>

lemma make_call_trace:
  assumes "make_call c res func p kw s = (r, s')"
  shows "\<exists>evs. trace s' = trace s @ evs \<and>
           requests evs \<noteq> [] \<and> set (requests evs) \<subseteq> {Request res func kw} \<and>
           length (requests evs) \<le> 5 \<and>
           succeeded evs = (if isl r then [] else [Request res func kw]) \<and>
           (\<forall>d \<in> set (delays evs). 2 \<le> d \<and> d \<le> 5) \<and> r \<noteq> Inl TryAgain \<and>
           (\<forall>status content. r \<noteq> Inl (HttpError status content)) \<and>
           (\<forall>v. r = Inr v \<longrightarrow> Executed (Request res func kw) (Inr v) \<in> set evs)"
proof -
  from retrying_trace[OF attempt_of_make_call_body assms[unfolded make_call_def]]
  obtain evs where e: "trace s' = trace s @ evs"
    "requests evs \<noteq> []" "set (requests evs) \<subseteq> {Request res func kw}" "length (requests evs) \<le> Suc (5 - 1)"
    "succeeded evs = (if isl r then [] else [Request res func kw])"
    "set (delays evs) \<subseteq> range (wait_exponential 1 2 5)" "r \<noteq> Inl TryAgain"
    "\<forall>status content. r \<noteq> Inl (HttpError status content)"
    "\<forall>v. r = Inr v \<longrightarrow> Executed (Request res func kw) (Inr v) \<in> set evs"
    by blast
  have "\<forall>d \<in> set (delays evs). 2 \<le> d \<and> d \<le> 5"
    using e(6) wait_exponential_bounds by auto
  with e show ?thesis by auto
qed

lemma make_call_body_transient:
  assumes "\<forall>w. \<exists>status content w'. status \<in> set transient_statuses \<and>
             execute c (Request res func kw) w = (Inl (HttpError status content), w')"
  shows "\<exists>status content w'. status \<in> set transient_statuses \<and>
           make_call_body c res func p kw s =
             (Inl TryAgain,
              \<lparr>world = w', trace = trace s @ [Executed (Request res func kw) (Inl (HttpError status content))]\<rparr>)"
proof -
  from assms obtain status content w' where
    "status \<in> set transient_statuses"
    "execute c (Request res func kw) (world s) = (Inl (HttpError status content), w')"
    by blast
  then show ?thesis
    by (auto simp: make_call_body_def perform_def)
qed

text \<open>
  C1. A call through \<open>make_call\<close> whose remote operation reports a transient status
  (300, 429, 500, 502, 503 or 504) on every attempt performs exactly five invocations of
  the operation, sleeps between consecutive attempts for a time within [2, 5], and then
  hands the caller a failure (\<open>RetryError\<close>), never a result.
\<close>

theorem make_call_transient_exhausts:
  assumes "\<forall>w. \<exists>status content w'. status \<in> set transient_statuses \<and>
             execute c (Request res func kw) w = (Inl (HttpError status content), w')"
  shows "\<exists>s' o1 o2 o3 o4 o5 d1 d2 d3 d4.
           make_call c res func propagate_errors kw s = (Inl RetryError, s') \<and>
           trace s' = trace s @
             [Executed (Request res func kw) o1, Slept d1,
              Executed (Request res func kw) o2, Slept d2,
              Executed (Request res func kw) o3, Slept d3,
              Executed (Request res func kw) o4, Slept d4,
              Executed (Request res func kw) o5] \<and>
           (\<forall>d \<in> set [d1, d2, d3, d4]. 2 \<le> d \<and> d \<le> 5) \<and>
           (\<forall>out \<in> set [o1, o2, o3, o4, o5].
              \<exists>status content. status \<in> set transient_statuses \<and> out = Inl (HttpError status content))"
proof -
  let ?req = "Request res func kw"
  let ?body = "make_call_body c res func propagate_errors kw"
  let ?w = "wait_exponential 1 2 5"
  have step: "\<And>s. \<exists>status content w'. status \<in> set transient_statuses \<and>
      ?body s = (Inl TryAgain, \<lparr>world = w', trace = trace s @ [Executed ?req (Inl (HttpError status content))]\<rparr>)"
    by (rule make_call_body_transient[OF assms])
  from step[of s] obtain t1 b1 w1 where
    a1: "t1 \<in> set transient_statuses"
        "?body s = (Inl TryAgain, \<lparr>world = w1, trace = trace s @ [Executed ?req (Inl (HttpError t1 b1))]\<rparr>)"
    by blast
  define s1 where "s1 = sleep (?w 1) \<lparr>world = w1, trace = trace s @ [Executed ?req (Inl (HttpError t1 b1))]\<rparr>"
  from step[of s1] obtain t2 b2 w2 where
    a2: "t2 \<in> set transient_statuses"
        "?body s1 = (Inl TryAgain, \<lparr>world = w2, trace = trace s1 @ [Executed ?req (Inl (HttpError t2 b2))]\<rparr>)"
    by blast
  define s2 where "s2 = sleep (?w 2) \<lparr>world = w2, trace = trace s1 @ [Executed ?req (Inl (HttpError t2 b2))]\<rparr>"
  from step[of s2] obtain t3 b3 w3 where
    a3: "t3 \<in> set transient_statuses"
        "?body s2 = (Inl TryAgain, \<lparr>world = w3, trace = trace s2 @ [Executed ?req (Inl (HttpError t3 b3))]\<rparr>)"
    by blast
  define s3 where "s3 = sleep (?w 3) \<lparr>world = w3, trace = trace s2 @ [Executed ?req (Inl (HttpError t3 b3))]\<rparr>"
  from step[of s3] obtain t4 b4 w4 where
    a4: "t4 \<in> set transient_statuses"
        "?body s3 = (Inl TryAgain, \<lparr>world = w4, trace = trace s3 @ [Executed ?req (Inl (HttpError t4 b4))]\<rparr>)"
    by blast
  define s4 where "s4 = sleep (?w 4) \<lparr>world = w4, trace = trace s3 @ [Executed ?req (Inl (HttpError t4 b4))]\<rparr>"
  from step[of s4] obtain t5 b5 w5 where
    a5: "t5 \<in> set transient_statuses"
        "?body s4 = (Inl TryAgain, \<lparr>world = w5, trace = trace s4 @ [Executed ?req (Inl (HttpError t5 b5))]\<rparr>)"
    by blast
  define s5 where "s5 = \<lparr>world = w5, trace = trace s4 @ [Executed ?req (Inl (HttpError t5 b5))]\<rparr>"
  have r5: "retrying 5 ?w ?body 5 s4 = (Inl RetryError, s5)"
    by (subst retrying.simps) (simp add: a5 s5_def)
  have r4: "retrying 5 ?w ?body 4 s3 = (Inl RetryError, s5)"
    using r5 by (subst retrying.simps) (simp add: a4 s4_def eval_nat_numeral)
  have r3: "retrying 5 ?w ?body 3 s2 = (Inl RetryError, s5)"
    using r4 by (subst retrying.simps) (simp add: a3 s3_def eval_nat_numeral)
  have r2: "retrying 5 ?w ?body 2 s1 = (Inl RetryError, s5)"
    using r3 by (subst retrying.simps) (simp add: a2 s2_def eval_nat_numeral)
  have r1: "make_call c res func propagate_errors kw s = (Inl RetryError, s5)"
    unfolding make_call_def using r2 by (subst retrying.simps) (simp add: a1 s1_def eval_nat_numeral)
  have tr: "trace s5 = trace s @
      [Executed ?req (Inl (HttpError t1 b1)), Slept (?w 1),
       Executed ?req (Inl (HttpError t2 b2)), Slept (?w 2),
       Executed ?req (Inl (HttpError t3 b3)), Slept (?w 3),
       Executed ?req (Inl (HttpError t4 b4)), Slept (?w 4),
       Executed ?req (Inl (HttpError t5 b5))]"
    by (simp add: s5_def s4_def s3_def s2_def s1_def sleep_def)
  have ds: "\<forall>d \<in> set [?w 1, ?w 2, ?w 3, ?w 4]. 2 \<le> d \<and> d \<le> 5"
    using wait_exponential_bounds by simp
  have os: "\<forall>out \<in> set [Inl (HttpError t1 b1), Inl (HttpError t2 b2), Inl (HttpError t3 b3),
                        Inl (HttpError t4 b4), Inl (HttpError t5 b5) :: exc + jv].
              \<exists>status content. status \<in> set transient_statuses \<and> out = Inl (HttpError status content)"
    using a1(1) a2(1) a3(1) a4(1) a5(1) by simp
  from r1 tr ds os show ?thesis by blast
qed

theorem make_call_transient_exhausts_witness:
  "(\<forall>w. \<exists>status content w'. status \<in> set transient_statuses \<and>
      execute unavailable (Request Files ''get'' [(''fileId'', JStr ''f1'')]) w
        = (Inl (HttpError status content), w')) \<and>
   (\<exists>s' o1 o2 o3 o4 o5 d1 d2 d3 d4.
      make_call unavailable Files ''get'' False [(''fileId'', JStr ''f1'')] start = (Inl RetryError, s') \<and>
      trace s' = trace start @
        [Executed (Request Files ''get'' [(''fileId'', JStr ''f1'')]) o1, Slept d1,
         Executed (Request Files ''get'' [(''fileId'', JStr ''f1'')]) o2, Slept d2,
         Executed (Request Files ''get'' [(''fileId'', JStr ''f1'')]) o3, Slept d3,
         Executed (Request Files ''get'' [(''fileId'', JStr ''f1'')]) o4, Slept d4,
         Executed (Request Files ''get'' [(''fileId'', JStr ''f1'')]) o5] \<and>
      (\<forall>d \<in> set [d1, d2, d3, d4]. 2 \<le> d \<and> d \<le> 5) \<and>
      (\<forall>out \<in> set [o1, o2, o3, o4, o5].
         \<exists>status content. status \<in> set transient_statuses \<and> out = Inl (HttpError status content)))"
proof -
  have h: "\<forall>w. \<exists>status content w'. status \<in> set transient_statuses \<and>
      execute unavailable (Request Files ''get'' [(''fileId'', JStr ''f1'')]) w
        = (Inl (HttpError status content), w')"
    by (simp add: unavailable_def stateless_def transient_statuses_def)
  from make_call_transient_exhausts[OF h, of False start] h show ?thesis by blast
qed

text \<open>
  A status outside the transient list ends the call at the first attempt: one request,
  no sleep, and the exception chosen by the \<^verbatim>\<open>except\<close> clause.
\<close>

lemma make_call_non_transient:
  assumes "execute c (Request res func kw) (world s) = (Inl (HttpError status content), w)"
      and "status \<notin> set transient_statuses"
  shows "make_call c res func propagate_errors kw s =
           (Inl (if propagate_errors then HttpErrorClass
                 else (case content of None \<Rightarrow> ValueError | Some errors \<Rightarrow> RequestFailed errors)),
            \<lparr>world = w, trace = trace s @ [Executed (Request res func kw) (Inl (HttpError status content))]\<rparr>)"
  unfolding make_call_def using assms
  by (subst retrying.simps) (auto simp: make_call_body_def perform_def split: option.splits)

text \<open>
  C2 at the input where the code departs from it: the remote answers 403 and the caller
  asks for the raw error. The call is not retried (one request, no sleep), but what
  reaches the caller is the exception made by \<^verbatim>\<open>raise HttpError\<close>, not the failure the
  remote raised.
\<close>

theorem make_call_propagate_errors_loses_failure:
  "make_call forbidden Files ''get'' True [(''fileId'', JStr ''f1'')] start =
     (Inl HttpErrorClass,
      \<lparr>world = (),
       trace = [Executed (Request Files ''get'' [(''fileId'', JStr ''f1'')])
                  (Inl (HttpError 403 (Some (JDict [(''error'', JStr ''forbidden'')]))))]\<rparr>) \<and>
   fst (make_call forbidden Files ''get'' True [(''fileId'', JStr ''f1'')] start) \<noteq>
     Inl (HttpError 403 (Some (JDict [(''error'', JStr ''forbidden'')])))"
proof -
  have e: "execute forbidden (Request Files ''get'' [(''fileId'', JStr ''f1'')]) (world start) =
             (Inl (HttpError 403 (Some (JDict [(''error'', JStr ''forbidden'')]))), ())"
    by (simp add: forbidden_def stateless_def)
  have n: "(403::int) \<notin> set transient_statuses"
    by (simp add: transient_statuses_def)
  show ?thesis
    using make_call_non_transient[OF e n, of True] by (simp add: start_def)
qed

section \<open>Properties of the pagination decorator\<close>

lemma ends_single:
  "ends_at_first_stop limit n [(items, tok)] \<longleftrightarrow> \<not> truthy tok \<or> limit < int (n + length items)"
  by (simp add: ends_at_first_stop_def stop_here_def)

lemma ends_Cons:
  "ends_at_first_stop limit n ((items, tok) # p # ps) \<longleftrightarrow>
     truthy tok \<and> \<not> limit < int (n + length items) \<and>
     ends_at_first_stop limit (n + length items) (p # ps)"
proof -
  have a: "\<And>k. stop_here limit n ((items, tok) # p # ps) (Suc k) =
                stop_here limit (n + length items) (p # ps) k"
    by (simp add: stop_here_def add.assoc)
  have b: "stop_here limit n ((items, tok) # p # ps) 0 \<longleftrightarrow>
             \<not> truthy tok \<or> limit < int (n + length items)"
    by (simp add: stop_here_def)
  have c: "(\<forall>k < Suc (length ps). \<not> stop_here limit n ((items, tok) # p # ps) k) \<longleftrightarrow>
           \<not> stop_here limit n ((items, tok) # p # ps) 0 \<and>
           (\<forall>k < length ps. \<not> stop_here limit n ((items, tok) # p # ps) (Suc k))"
    by (metis less_Suc_eq_0_disj)
  show ?thesis
    unfolding ends_at_first_stop_def using a[of "length ps"] by (simp add: c a b) blast
qed

lemma paginated_loop_sound_aux:
  assumes "paginated_loop data_key func limit kw results s = Some y"
  shows "\<forall>out s'. y = (Inr out, s') \<longrightarrow>
          (\<exists>pages. successive_pages data_key func kw s pages s' \<and>
             out = results @ concat (map fst pages) \<and>
             ends_at_first_stop limit (length results) pages)"
proof (rule paginated_loop.raw_induct
    [where P = "\<lambda>data_key func limit kw results s y. \<forall>out s'. y = (Inr out, s') \<longrightarrow>
          (\<exists>pages. successive_pages data_key func kw s pages s' \<and>
             out = results @ concat (map fst pages) \<and>
             ends_at_first_stop limit (length results) pages)", OF _ assms])
  fix loop :: "string \<Rightarrow> (kwargs \<Rightarrow> 'a \<Rightarrow> (exc + jv) \<times> 'a) \<Rightarrow> int \<Rightarrow> kwargs \<Rightarrow> jv list \<Rightarrow> 'a
     \<Rightarrow> ((exc + jv list) \<times> 'a) option"
  fix data_key func limit kw results s y
  assume IH: "\<And>data_key func limit kw results s y. loop data_key func limit kw results s = Some y \<Longrightarrow>
     \<forall>out s'. y = (Inr out, s') \<longrightarrow>
          (\<exists>pages. successive_pages data_key func kw s pages s' \<and>
             out = results @ concat (map fst pages) \<and>
             ends_at_first_stop limit (length results) pages)"
  assume body: "(case add_next_page_token kw of
        Inl e \<Rightarrow> Some (Inl e, s)
      | Inr kw1 \<Rightarrow>
          (case func kw1 s of
             (Inl e, s1) \<Rightarrow> Some (Inl e, s1)
           | (Inr response, s1) \<Rightarrow>
               (case read_page data_key response of
                  Inl e \<Rightarrow> Some (Inl e, s1)
                | Inr (items, next_token) \<Rightarrow>
                    if \<not> truthy next_token then Some (Inr (results @ items), s1)
                    else if limit < int (length (results @ items)) then Some (Inr (results @ items), s1)
                    else loop data_key func limit
                           (kw_update ''pageToken'' next_token kw1) (results @ items) s1))) = Some y"
  show "\<forall>out s'. y = (Inr out, s') \<longrightarrow>
          (\<exists>pages. successive_pages data_key func kw s pages s' \<and>
             out = results @ concat (map fst pages) \<and>
             ends_at_first_stop limit (length results) pages)"
  proof (intro allI impI)
    fix out s'
    assume y: "y = (Inr out, s')"
    from body y obtain kw1 where k: "add_next_page_token kw = Inr kw1"
      by (cases "add_next_page_token kw") auto
    obtain r s1 where f: "func kw1 s = (r, s1)" by (cases "func kw1 s")
    from body y k f obtain response where r: "r = Inr response"
      by (cases r) auto
    from body y k f r obtain items tok where p: "read_page data_key response = Inr (items, tok)"
      by (cases "read_page data_key response") auto
    show "\<exists>pages. successive_pages data_key func kw s pages s' \<and>
            out = results @ concat (map fst pages) \<and>
            ends_at_first_stop limit (length results) pages"
    proof (cases "\<not> truthy tok \<or> limit < int (length (results @ items))")
      case True
      with body y k f r p have "out = results @ items" "s' = s1"
        by (auto split: if_splits)
      moreover have "successive_pages data_key func kw s [(items, tok)] s1"
        using k f r p by (auto intro: successive_pages.last_page)
      moreover have "ends_at_first_stop limit (length results) [(items, tok)]"
        using True by (simp add: ends_single)
      ultimately show ?thesis by (intro exI[of _ "[(items, tok)]"]) simp
    next
      case False
      with body y k f r p have
        "loop data_key func limit (kw_update ''pageToken'' tok kw1) (results @ items) s1 = Some (Inr out, s')"
        by (auto split: if_splits)
      from IH[OF this, rule_format, OF refl] obtain pages where
        q: "successive_pages data_key func (kw_update ''pageToken'' tok kw1) s1 pages s'"
           "out = (results @ items) @ concat (map fst pages)"
           "ends_at_first_stop limit (length (results @ items)) pages"
        by blast
      from q(3) obtain p' ps where c: "pages = p' # ps"
        by (cases pages) (auto simp: ends_at_first_stop_def)
      have "successive_pages data_key func kw s ((items, tok) # pages) s'"
        using k f r p False q(1) by (auto intro: successive_pages.next_page)
      moreover have "ends_at_first_stop limit (length results) ((items, tok) # pages)"
        using q(3) False unfolding c by (simp add: ends_Cons)
      ultimately show ?thesis using q(2) by (intro exI[of _ "(items, tok) # pages"]) simp
    qed
  qed
qed

lemma paginated_loop_sound:
  assumes "paginated_loop data_key func limit kw results s = Some (Inr out, s')"
  shows "\<exists>pages. successive_pages data_key func kw s pages s' \<and>
           out = results @ concat (map fst pages) \<and>
           ends_at_first_stop limit (length results) pages"
  using paginated_loop_sound_aux[OF assms] by blast

lemma paginated_loop_complete:
  assumes "successive_pages data_key func kw s pages s'"
      and "ends_at_first_stop limit (length results) pages"
  shows "paginated_loop data_key func limit kw results s =
           Some (Inr (results @ concat (map fst pages)), s')"
  using assms
proof (induction arbitrary: results rule: successive_pages.induct)
  case (last_page kw kw1 s response s1 items next_token)
  then show ?case
    by (subst paginated_loop.simps) (auto simp: ends_single)
next
  case (next_page kw kw1 s response s1 items next_token pages s')
  from next_page.hyps(5) obtain p ps where c: "pages = p # ps"
    by (cases rule: successive_pages.cases) auto
  from next_page.prems have e: "\<not> limit < int (length results + length items)"
    "ends_at_first_stop limit (length (results @ items)) pages"
    unfolding c by (simp_all add: ends_Cons)
  from next_page.IH[OF e(2)] next_page.hyps(1-4) e(1) show ?case
    by (subst paginated_loop.simps) simp
qed

lemma ends_overshoot:
  assumes "ends_at_first_stop limit n pages" "int n \<le> limit"
  shows "int (n + length (concat (map fst pages))) \<le> limit + int (length (fst (last pages)))"
  using assms
proof (induction pages arbitrary: n)
  case Nil
  then show ?case by (simp add: ends_at_first_stop_def)
next
  case (Cons p pages)
  obtain items tok where p: "p = (items, tok)" by (cases p)
  show ?case
  proof (cases pages)
    case Nil
    with Cons.prems p show ?thesis by simp
  next
    case (Cons q qs)
    with Cons.prems(1) p have "int (n + length items) \<le> limit"
      "ends_at_first_stop limit (n + length items) pages"
      by (simp_all add: ends_Cons)
    from Cons.IH[OF this(2) this(1)] show ?thesis
      using Cons p by (simp add: add.assoc)
  qed
qed

text \<open>The three-page source, followed page by page.\<close>

lemma three_pages_successive:
  "successive_pages ''files'' three_pages [] ()
     [(map (\<lambda>i. JNum (int i)) [0 ..< 100], JStr ''t1''),
      (map (\<lambda>i. JNum (int i)) [100 ..< 200], JStr ''t2''),
      (map (\<lambda>i. JNum (int i)) [200 ..< 300], JNull)] ()"
proof -
  have k0: "add_next_page_token [] = Inr []"
    by (simp add: add_next_page_token_def)
  have k1: "\<And>t. add_next_page_token [(''pageToken'', t)] = Inr [(''pageToken'', t)]"
    by (simp add: add_next_page_token_def)
  have f0: "three_pages [] () =
      (Inr (JDict [(''files'', hundred 0), (''nextPageToken'', JStr ''t1'')]), ())"
    by (simp add: three_pages_def)
  have f1: "three_pages [(''pageToken'', JStr ''t1'')] () =
      (Inr (JDict [(''files'', hundred 1), (''nextPageToken'', JStr ''t2'')]), ())"
    by (simp add: three_pages_def)
  have f2: "three_pages [(''pageToken'', JStr ''t2'')] () = (Inr (JDict [(''files'', hundred 2)]), ())"
    by (simp add: three_pages_def)
  have r0: "read_page ''files'' (JDict [(''files'', hundred 0), (''nextPageToken'', JStr ''t1'')]) =
      Inr (map (\<lambda>i. JNum (int i)) [0 ..< 100], JStr ''t1'')"
    by (simp add: read_page_def hundred_def del: upt_rec_numeral)
  have r1: "read_page ''files'' (JDict [(''files'', hundred 1), (''nextPageToken'', JStr ''t2'')]) =
      Inr (map (\<lambda>i. JNum (int i)) [100 ..< 200], JStr ''t2'')"
    by (simp add: read_page_def hundred_def del: upt_rec_numeral)
  have r2: "read_page ''files'' (JDict [(''files'', hundred 2)]) =
      Inr (map (\<lambda>i. JNum (int i)) [200 ..< 300], JNull)"
    by (simp add: read_page_def hundred_def del: upt_rec_numeral)
  have u1: "kw_update ''pageToken'' (JStr ''t1'') [] = [(''pageToken'', JStr ''t1'')]"
    by simp
  have u2: "kw_update ''pageToken'' (JStr ''t2'') [(''pageToken'', JStr ''t1'')] = [(''pageToken'', JStr ''t2'')]"
    by simp
  have p2: "successive_pages ''files'' three_pages [(''pageToken'', JStr ''t2'')] ()
      [(map (\<lambda>i. JNum (int i)) [200 ..< 300], JNull)] ()"
    by (rule successive_pages.last_page[where func = three_pages, OF k1 f2 r2])
  have p1: "successive_pages ''files'' three_pages [(''pageToken'', JStr ''t1'')] ()
      [(map (\<lambda>i. JNum (int i)) [100 ..< 200], JStr ''t2''),
       (map (\<lambda>i. JNum (int i)) [200 ..< 300], JNull)] ()"
    by (rule successive_pages.next_page[where func = three_pages, OF k1 f1 r1 _ p2[folded u2]]) simp
  show ?thesis
    by (rule successive_pages.next_page[where func = three_pages, OF k0 f0 r0 _ p1[folded u1]]) simp
qed

lemma three_pages_all:
  "paginated ''files'' three_pages (Some 250) [] () =
     Some (Inr (map (\<lambda>i. JNum (int i)) [0 ..< 300]), ())"
proof -
  have u: "[0 ..< 300] = [0 ..< 100] @ [100 ..< 200] @ [200 ..< 300]"
    using upt_add_eq_append[of 0 100 100] upt_add_eq_append[of 0 200 100] by simp
  have e: "ends_at_first_stop 250 (length ([] :: jv list))
      [(map (\<lambda>i. JNum (int i)) [0 ..< 100], JStr ''t1''),
       (map (\<lambda>i. JNum (int i)) [100 ..< 200], JStr ''t2''),
       (map (\<lambda>i. JNum (int i)) [200 ..< 300], JNull)]"
    by (simp add: ends_Cons ends_single del: upt_rec_numeral)
  show ?thesis
    unfolding paginated_def
    using paginated_loop_complete[OF three_pages_successive e]
    by (simp add: u del: upt_rec_numeral)
qed

text \<open>With the limit 150 the run stops after the second page although its token remains.\<close>

lemma three_pages_cut:
  "paginated ''files'' three_pages (Some 150) [] () =
     Some (Inr (map (\<lambda>i. JNum (int i)) [0 ..< 200]), ())"
proof -
  have u: "[0 ..< 200] = [0 ..< 100] @ [100 ..< 200]"
    using upt_add_eq_append[of 0 100 100] by simp
  have k0: "add_next_page_token [] = Inr []"
    by (simp add: add_next_page_token_def)
  have k1: "add_next_page_token [(''pageToken'', JStr ''t1'')] = Inr [(''pageToken'', JStr ''t1'')]"
    by (simp add: add_next_page_token_def)
  have f0: "three_pages [] () =
      (Inr (JDict [(''files'', hundred 0), (''nextPageToken'', JStr ''t1'')]), ())"
    by (simp add: three_pages_def)
  have f1: "three_pages [(''pageToken'', JStr ''t1'')] () =
      (Inr (JDict [(''files'', hundred 1), (''nextPageToken'', JStr ''t2'')]), ())"
    by (simp add: three_pages_def)
  have r0: "read_page ''files'' (JDict [(''files'', hundred 0), (''nextPageToken'', JStr ''t1'')]) =
      Inr (map (\<lambda>i. JNum (int i)) [0 ..< 100], JStr ''t1'')"
    by (simp add: read_page_def hundred_def del: upt_rec_numeral)
  have r1: "read_page ''files'' (JDict [(''files'', hundred 1), (''nextPageToken'', JStr ''t2'')]) =
      Inr (map (\<lambda>i. JNum (int i)) [100 ..< 200], JStr ''t2'')"
    by (simp add: read_page_def hundred_def del: upt_rec_numeral)
  have u1: "kw_update ''pageToken'' (JStr ''t1'') [] = [(''pageToken'', JStr ''t1'')]"
    by simp
  have p1: "successive_pages ''files'' three_pages [(''pageToken'', JStr ''t1'')] ()
      [(map (\<lambda>i. JNum (int i)) [100 ..< 200], JStr ''t2'')] ()"
    by (rule successive_pages.last_page[where func = three_pages, OF k1 f1 r1])
  have p0: "successive_pages ''files'' three_pages [] ()
      [(map (\<lambda>i. JNum (int i)) [0 ..< 100], JStr ''t1''),
       (map (\<lambda>i. JNum (int i)) [100 ..< 200], JStr ''t2'')] ()"
    by (rule successive_pages.next_page[where func = three_pages, OF k0 f0 r0 _ p1[folded u1]]) simp
  have e: "ends_at_first_stop 150 (length ([] :: jv list))
      [(map (\<lambda>i. JNum (int i)) [0 ..< 100], JStr ''t1''),
       (map (\<lambda>i. JNum (int i)) [100 ..< 200], JStr ''t2'')]"
    by (simp add: ends_Cons ends_single del: upt_rec_numeral)
  show ?thesis
    unfolding paginated_def
    using paginated_loop_complete[OF p0 e]
    by (simp add: u del: upt_rec_numeral)
qed

text \<open>
  C3. The result of a function wrapped by \<open>paginated\<close> is the in-order concatenation of
  the successive pages; the run ends at the first page that carries no continuation
  token or at which the accumulated item count exceeds the limit (250 when the caller
  gives none), even if that page carries a token, so that a result goes beyond a
  non-negative limit by at most the size of its last page. For the source of three pages
  of 100 items with tokens on the first two pages and the limit 250, the wrapper returns
  exactly the 300 items, in order.
\<close>

theorem paginated_concatenates_pages:
  "(paginated data_key func limit kw s = Some (Inr out, s') \<longleftrightarrow>
      (\<exists>pages. successive_pages data_key func kw s pages s' \<and>
         out = concat (map fst pages) \<and>
         ends_at_first_stop (case limit of None \<Rightarrow> 250 | Some n \<Rightarrow> n) 0 pages)) \<and>
   (paginated data_key func limit kw s = Some (Inr out, s') \<and>
    0 \<le> (case limit of None \<Rightarrow> 250 | Some n \<Rightarrow> n) \<longrightarrow>
      (\<exists>pages. successive_pages data_key func kw s pages s' \<and>
         out = concat (map fst pages) \<and>
         int (length out) \<le> (case limit of None \<Rightarrow> 250 | Some n \<Rightarrow> n) + int (length (fst (last pages))))) \<and>
   paginated ''files'' three_pages (Some 250) [] () =
     Some (Inr (map (\<lambda>i. JNum (int i)) [0 ..< 300]), ()) \<and>
   length (map (\<lambda>i. JNum (int i)) [0 ..< 300]) = 300"
proof -
  let ?L = "case limit of None \<Rightarrow> 250 | Some n \<Rightarrow> n"
  have fwd: "\<exists>pages. successive_pages data_key func kw s pages s' \<and>
         out = concat (map fst pages) \<and> ends_at_first_stop ?L 0 pages"
    if "paginated data_key func limit kw s = Some (Inr out, s')"
    using paginated_loop_sound[OF that[unfolded paginated_def]] by simp
  have bwd: "paginated data_key func limit kw s = Some (Inr out, s')"
    if "\<exists>pages. successive_pages data_key func kw s pages s' \<and>
         out = concat (map fst pages) \<and> ends_at_first_stop ?L 0 pages"
  proof -
    from that obtain pages where p: "successive_pages data_key func kw s pages s'"
      "out = concat (map fst pages)" "ends_at_first_stop ?L (length ([] :: jv list)) pages"
      by auto
    from paginated_loop_complete[OF p(1) p(3)] p(2) show ?thesis
      by (simp add: paginated_def)
  qed
  have over: "\<exists>pages. successive_pages data_key func kw s pages s' \<and>
         out = concat (map fst pages) \<and> int (length out) \<le> ?L + int (length (fst (last pages)))"
    if "paginated data_key func limit kw s = Some (Inr out, s')" "0 \<le> ?L"
  proof -
    from fwd[OF that(1)] obtain pages where p: "successive_pages data_key func kw s pages s'"
      "out = concat (map fst pages)" "ends_at_first_stop ?L 0 pages"
      by auto
    from ends_overshoot[OF p(3)] that(2) p(2)
    have "int (length out) \<le> ?L + int (length (fst (last pages)))" by simp
    with p show ?thesis by blast
  qed
  show ?thesis
    using fwd bwd over three_pages_all by (intro conjI iffI impI) (simp_all del: upt_rec_numeral)
qed

theorem paginated_concatenates_pages_witness:
  "paginated ''files'' three_pages (Some 150) [] () =
     Some (Inr (map (\<lambda>i. JNum (int i)) [0 ..< 200]), ()) \<and>
   (\<exists>pages. successive_pages ''files'' three_pages [] () pages () \<and>
      map (\<lambda>i. JNum (int i)) [0 ..< 200] = concat (map fst pages) \<and>
      ends_at_first_stop 150 0 pages \<and>
      int (length (map (\<lambda>i. JNum (int i)) [0 ..< 200])) \<le> 150 + int (length (fst (last pages))))"
proof -
  note t = paginated_concatenates_pages[of "''files''" three_pages "Some 150" "[]" "()"
      "map (\<lambda>i. JNum (int i)) [0 ..< 200]" "()"]
  from t three_pages_cut obtain pages where p: "successive_pages ''files'' three_pages [] () pages ()"
    "map (\<lambda>i. JNum (int i)) [0 ..< 200] = concat (map fst pages)"
    "ends_at_first_stop 150 0 pages"
    by auto
  from ends_overshoot[OF p(3)] p(2)
  have "int (length (map (\<lambda>i. JNum (int i)) [0 ..< 200])) \<le> 150 + int (length (fst (last pages)))"
    by simp
  with p three_pages_cut show ?thesis by blast
qed

section \<open>Properties of the operations on files and permissions\<close>

lemma make_call_success:
  assumes "execute c (Request res func kw) (world s) = (Inr v, w)"
  shows "make_call c res func propagate_errors kw s =
           (Inr v, \<lparr>world = w, trace = trace s @ [Executed (Request res func kw) (Inr v)]\<rparr>)"
  unfolding make_call_def using assms
  by (subst retrying.simps) (simp add: make_call_body_def perform_def)


text \<open>
  C10. \<open>delete_file\<close> behaves the same for any two values of \<open>team_drive_id\<close>: the
  result and the final state are equal, and every request it executes is the delete
  request keyed by the file identifier alone.
\<close>

theorem delete_file_ignores_team_drive_id:
  "delete_file c team_drive_id file_id s = delete_file c other_team_drive_id file_id s \<and>
   (\<exists>evs. trace (snd (delete_file c team_drive_id file_id s)) = trace s @ evs \<and>
      set (requests evs) = {delete_file_request file_id})"
proof -
  obtain r s' where d: "delete_file c team_drive_id file_id s = (r, s')"
    by (cases "delete_file c team_drive_id file_id s")
  from make_call_trace[OF d[unfolded delete_file_def]] obtain evs where
    "trace s' = trace s @ evs" "requests evs \<noteq> []"
    "set (requests evs) \<subseteq> {delete_file_request file_id}"
    unfolding delete_file_request_def by blast
  then have "trace s' = trace s @ evs \<and> set (requests evs) = {delete_file_request file_id}"
    by (cases "requests evs") auto
  then show ?thesis
    using d by (auto simp: delete_file_def)
qed

text \<open>The first attempt of a call, for evaluating calls on a given remote.\<close>

lemma make_call_first:
  "make_call c res func p kw s =
     (case execute c (Request res func kw) (world s) of
        (out, w) \<Rightarrow>
          (case out of
             Inr v \<Rightarrow> (Inr v, \<lparr>world = w, trace = trace s @ [Executed (Request res func kw) out]\<rparr>)
           | Inl e \<Rightarrow>
               if make_call_except p e \<noteq> TryAgain then
                 (Inl (make_call_except p e),
                  \<lparr>world = w, trace = trace s @ [Executed (Request res func kw) out]\<rparr>)
               else retrying 5 (wait_exponential 1 2 5) (make_call_body c res func p kw) 2
                      (sleep (wait_exponential 1 2 5 1)
                         \<lparr>world = w, trace = trace s @ [Executed (Request res func kw) out]\<rparr>)))"
  unfolding make_call_def
  by (subst retrying.simps)
     (simp add: make_call_body_def perform_def eval_nat_numeral split: prod.splits sum.splits)







section \<open>Properties of archiving\<close>


lemma kinds_single: "set rs \<subseteq> {req} \<Longrightarrow> kind ` set rs \<subseteq> {kind req}"
  by auto







text \<open>The query string, character by character at its two quotes: it has 48 characters,
  the quotes are at positions 12 and 47, and no space follows the closing quote.\<close>

lemma non_folder_query_text:
  "non_folder_query =
     JStr (''mimeType != '' @ [CHR 0x27] @ ''application/vnd.google-apps.folder'' @ [CHR 0x27]) \<and>
   (\<exists>q. non_folder_query = JStr q \<and> length q = 48 \<and> q ! 12 = CHR 0x27 \<and> last q = CHR 0x27)"
  by (simp add: non_folder_query_def)








section \<open>Properties of drive creation and of the chunked upload\<close>

lemma add_members_not_TryAgain:
  "fst (add_members c drive_data role members s) \<noteq> Inl TryAgain"
proof (induction members arbitrary: s)
  case Nil
  then show ?case by (cases drive_data) simp_all
next
  case (Cons member members)
  show ?case
  proof (cases drive_data)
    case None
    then show ?thesis by simp
  next
    case (Some d)
    show ?thesis
    proof (cases "py_item ''id'' d")
      case (Inl e)
      then have "e \<noteq> TryAgain" by (cases d) (auto split: option.splits)
      with Some Inl show ?thesis by simp
    next
      case (Inr drive_id)
      obtain r1 s1 where p: "add_permission c member drive_id role UserTypes_user s = (r1, s1)"
        by (cases "add_permission c member drive_id role UserTypes_user s")
      from make_call_trace[OF p[unfolded add_permission_def]] have "r1 \<noteq> Inl TryAgain" by blast
      with Some Inr p Cons.IH[of s1] show ?thesis by (cases r1) auto
    qed
  qed
qed

text \<open>
  \<open>make_call\<close> never hands an \<open>HttpError\<close> to its caller, so the \<^verbatim>\<open>except HttpError\<close> clause
  of \<open>create_team_drive\<close> is never entered, the body never raises \<^verbatim>\<open>TryAgain\<close>, and the
  decorated function is the body run once.
\<close>

lemma create_team_drive_body_not_TryAgain:
  "fst (create_team_drive_body c name members role s) \<noteq> Inl TryAgain"
proof -
  obtain request_id w where u: "uuid4 c (world s) = (request_id, w)"
    by (cases "uuid4 c (world s)")
  obtain r1 s1 where m: "make_call c Drives ''create'' False
      [(''body'', JDict [(''name'', JStr name)]), (''requestId'', JStr request_id)]
      \<lparr>world = w, trace = trace s\<rparr> = (r1, s1)"
    by (cases "make_call c Drives ''create'' False
      [(''body'', JDict [(''name'', JStr name)]), (''requestId'', JStr request_id)]
      \<lparr>world = w, trace = trace s\<rparr>")
  from make_call_trace[OF m] have n: "r1 \<noteq> Inl TryAgain"
    "\<forall>status content. r1 \<noteq> Inl (HttpError status content)"
    by blast+
  show ?thesis
  proof (cases r1)
    case (Inr drive_data)
    with u m show ?thesis
      by (simp add: create_team_drive_body_def add_members_not_TryAgain)
  next
    case (Inl e)
    with n have "e \<noteq> TryAgain" "\<forall>status content. e \<noteq> HttpError status content" by simp_all
    with u m Inl show ?thesis
      by (cases e) (simp_all add: create_team_drive_body_def)
  qed
qed

lemma create_team_drive_runs_once:
  "create_team_drive c name members role s = create_team_drive_body c name members role s"
proof -
  obtain r1 s1 where b: "create_team_drive_body c name members role s = (r1, s1)"
    by (cases "create_team_drive_body c name members role s")
  with create_team_drive_body_not_TryAgain[of c name members role s] have "r1 \<noteq> Inl TryAgain"
    by simp
  with b show ?thesis
    unfolding create_team_drive_def
    by (subst retrying.simps) (cases r1, auto)
qed

text \<open>
  C4 at the input where the code departs from it: the drive name is taken and the remote
  answers 409. The creation request is sent once and the failure reaches the caller as
  \<open>RequestFailed\<close>; no second request with a fresh request id follows.
\<close>

theorem create_team_drive_conflict_not_retried:
  "create_team_drive name_taken ''incident-1'' [''ann@example.com''] Roles_owner start =
     (Inl (RequestFailed (JDict [(''error'', JStr ''conflict'')])),
      \<lparr>world = (),
       trace =
         [Executed
            (Request Drives ''create''
               [(''body'', JDict [(''name'', JStr ''incident-1'')]),
                (''requestId'', JStr ''6f1c2a0e-5b7d-4c3a-9e21-0d4b8a7c1f55'')])
            (Inl (HttpError 409 (Some (JDict [(''error'', JStr ''conflict'')]))))]\<rparr>)"
  by (simp add: create_team_drive_runs_once create_team_drive_body_def make_call_first
        name_taken_def stateless_def start_def transient_statuses_def)

text \<open>
  A chunk that fails with a status other than 500, 502, 503 and 504 makes \<open>upload_chunk\<close>
  return \<^verbatim>\<open>None\<close> after that single attempt: the failure is discarded.
\<close>

lemma upload_chunk_discards:
  assumes "next_chunk c request (world s) = (Inl (HttpError status content), w)"
      and "status \<notin> set [500, 502, 503, 504]"
  shows "upload_chunk c request s =
           Some (Inr None,
                 \<lparr>world = w, trace = trace s @ [Chunk request (Inl (HttpError status content))]\<rparr>)"
  unfolding upload_chunk_def using assms
  by (subst retrying_forever.simps) (simp add: upload_chunk_body_def)

text \<open>
  C5 at the inputs where the code departs from it. When a chunk fails with 404,
  \<open>upload_chunk\<close> returns \<^verbatim>\<open>None\<close>, unpacking it raises \<^verbatim>\<open>TypeError\<close>, and \<open>upload_file\<close>
  ends with that error after one chunk request: the transfer is not restarted. When the
  404 arrives while the upload request is built, \<open>upload_file\<close> raises \<^verbatim>\<open>TryAgain\<close> to
  its caller; nothing retries it.
\<close>

theorem upload_file_not_found_not_restarted:
  "upload_file chunk_not_found ''/tmp/report.pdf'' ''report.pdf'' ''application/pdf'' start =
     Some (Inl TypeError, \<lparr>world = (), trace = [Chunk 0 (Inl (HttpError 404 None))]\<rparr>) \<and>
   upload_file upload_not_found ''/tmp/report.pdf'' ''report.pdf'' ''application/pdf'' start =
     Some (Inl TryAgain, \<lparr>world = (), trace = []\<rparr>)"
proof -
  have c: "upload_chunk chunk_not_found 0 \<lparr>world = (), trace = []\<rparr> =
      Some (Inr None, \<lparr>world = (), trace = [Chunk 0 (Inl (HttpError 404 None))]\<rparr>)"
    using upload_chunk_discards[of chunk_not_found 0 "\<lparr>world = (), trace = []\<rparr>" 404 None "()"]
    by (simp add: chunk_not_found_def stateless_def)
  have l: "upload_loop chunk_not_found 0 \<lparr>world = (), trace = []\<rparr> =
      Some (Inl TypeError, \<lparr>world = (), trace = [Chunk 0 (Inl (HttpError 404 None))]\<rparr>)"
    by (subst upload_loop.simps) (simp add: c)
  have a: "upload_file chunk_not_found ''/tmp/report.pdf'' ''report.pdf'' ''application/pdf'' start =
     Some (Inl TypeError, \<lparr>world = (), trace = [Chunk 0 (Inl (HttpError 404 None))]\<rparr>)"
    using l by (simp add: upload_file_def chunk_not_found_def stateless_def start_def)
  have b: "upload_file upload_not_found ''/tmp/report.pdf'' ''report.pdf'' ''application/pdf'' start =
     Some (Inl TryAgain, \<lparr>world = (), trace = []\<rparr>)"
    by (simp add: upload_file_def upload_not_found_def chunk_not_found_def stateless_def start_def)
  from a b show ?thesis by (rule conjI)
qed

text \<open>
  C6 at the input where the code departs from it: a chunk fails with 403. \<open>upload_chunk\<close>
  returns \<^verbatim>\<open>None\<close> instead of raising, so the failure and its context are lost; the
  caller \<open>upload_file\<close> then fails with a bare \<^verbatim>\<open>TypeError\<close>.
\<close>

theorem upload_chunk_swallows_failure:
  "upload_chunk forbidden 0 start =
     Some (Inr None, \<lparr>world = (), trace = [Chunk 0 (Inl (HttpError 403 None))]\<rparr>) \<and>
   upload_file forbidden ''/tmp/report.pdf'' ''report.pdf'' ''application/pdf'' start =
     Some (Inl TypeError, \<lparr>world = (), trace = [Chunk 0 (Inl (HttpError 403 None))]\<rparr>)"
proof -
  have c: "upload_chunk forbidden 0 \<lparr>world = (), trace = []\<rparr> =
      Some (Inr None, \<lparr>world = (), trace = [Chunk 0 (Inl (HttpError 403 None))]\<rparr>)"
    using upload_chunk_discards[of forbidden 0 "\<lparr>world = (), trace = []\<rparr>" 403 None "()"]
    by (simp add: forbidden_def stateless_def)
  have l: "upload_loop forbidden 0 \<lparr>world = (), trace = []\<rparr> =
      Some (Inl TypeError, \<lparr>world = (), trace = [Chunk 0 (Inl (HttpError 403 None))]\<rparr>)"
    by (subst upload_loop.simps) (simp add: c)
  have a: "upload_file forbidden ''/tmp/report.pdf'' ''report.pdf'' ''application/pdf'' start =
     Some (Inl TypeError, \<lparr>world = (), trace = [Chunk 0 (Inl (HttpError 403 None))]\<rparr>)"
    using l by (simp add: upload_file_def forbidden_def stateless_def start_def)
  from c a show ?thesis by (simp add: start_def)
qed

text \<open>
  Once the drive exists its members are granted access one after the other, in the
  order given. A failure stops the loop: the first \<open>k\<close> members keep their access, and
  nothing but permission requests is sent, so nothing is rolled back.
\<close>

lemma add_members_trace:
  assumes "add_members c (Some d) role members s = (r, s')"
  shows "\<exists>evs k drive_id.
           trace s' = trace s @ evs \<and> k \<le> length members \<and>
           kind ` set (requests evs) \<subseteq> {(Permissions, ''create'')} \<and>
           (0 < k \<longrightarrow> py_item ''id'' d = Inr drive_id) \<and>
           succeeded evs = map (\<lambda>member. add_permission_request member drive_id role) (take k members) \<and>
           (\<not> isl r \<longrightarrow> k = length members \<and> r = Inr d) \<and>
           (isl r \<longrightarrow> k < length members)"
  using assms
proof (induction members arbitrary: s)
  case Nil
  then have "r = Inr d" "s' = s" by simp_all
  then show ?case by (intro exI[of _ "[]"] exI[of _ 0]) simp
next
  case (Cons member members)
  show ?case
  proof (cases "py_item ''id'' d")
    case (Inl e)
    with Cons.prems have "r = Inl e" "s' = s" by simp_all
    then show ?thesis by (intro exI[of _ "[]"] exI[of _ 0]) simp
  next
    case (Inr drive_id)
    let ?req = "add_permission_request member drive_id role"
    obtain r1 s1 where p: "add_permission c member drive_id role UserTypes_user s = (r1, s1)"
      by (cases "add_permission c member drive_id role UserTypes_user s")
    from p have "make_call c Permissions ''create'' False
       [(''fileId'', drive_id),
        (''body'', JDict [(''type'', JStr ''user''),
                          (''role'', JStr (Roles_value role)),
                          (''emailAddress'', JStr member)]),
        (''sendNotificationEmail'', JBool False),
        (''fields'', JStr ''id''),
        (''supportsTeamDrives'', JBool True)] s = (r1, s1)"
      by (simp add: add_permission_def)
    from make_call_trace[OF this, folded add_permission_request_def] obtain e1 where e1:
      "trace s1 = trace s @ e1" "set (requests e1) \<subseteq> {?req}"
      "succeeded e1 = (if isl r1 then [] else [?req])"
      by (elim exE conjE) (rule that, assumption+)
    have k1: "kind ` set (requests e1) \<subseteq> {(Permissions, ''create'')}"
      using kinds_single[OF e1(2)] by (simp add: add_permission_request_def)
    show ?thesis
    proof (cases r1)
      case (Inl e)
      with Cons.prems Inr p have "r = Inl e" "s' = s1" by simp_all
      with e1(1,3) k1 Inl show ?thesis by (intro exI[of _ e1] exI[of _ 0]) simp
    next
      case granted: (Inr v)
      with Cons.prems Inr p have "add_members c (Some d) role members s1 = (r, s')" by simp
      from Cons.IH[OF this] obtain e2 k drive_id' where ih:
        "trace s' = trace s1 @ e2" "k \<le> length members"
        "kind ` set (requests e2) \<subseteq> {(Permissions, ''create'')}"
        "0 < k \<longrightarrow> py_item ''id'' d = Inr drive_id'"
        "succeeded e2 = map (\<lambda>member. add_permission_request member drive_id' role) (take k members)"
        "\<not> isl r \<longrightarrow> k = length members \<and> r = Inr d" "isl r \<longrightarrow> k < length members"
        by (elim exE conjE) (rule that, assumption+)
      have same: "map (\<lambda>member. add_permission_request member drive_id' role) (take k members) =
                  map (\<lambda>member. add_permission_request member drive_id role) (take k members)"
      proof (cases "0 < k")
        case True
        with ih(4) Inr have "drive_id' = drive_id" by simp
        then show ?thesis by simp
      next
        case False
        then show ?thesis by simp
      qed
      have a: "trace s' = trace s @ (e1 @ e2)" using e1(1) ih(1) by simp
      have b: "Suc k \<le> length (member # members)" using ih(2) by simp
      have c: "kind ` set (requests (e1 @ e2)) \<subseteq> {(Permissions, ''create'')}"
        using k1 ih(3) by (auto simp: requests_append)
      have d: "0 < Suc k \<longrightarrow> py_item ''id'' d = Inr drive_id" using Inr by simp
      have e: "succeeded (e1 @ e2) =
          map (\<lambda>member. add_permission_request member drive_id role) (take (Suc k) (member # members))"
        using e1(3) granted ih(5) same by (simp add: succeeded_append)
      have f: "\<not> isl r \<longrightarrow> Suc k = length (member # members) \<and> r = Inr d" using ih(6) by simp
      have g: "isl r \<longrightarrow> Suc k < length (member # members)" using ih(7) by simp
      from a b c d e f g show ?thesis
        by (intro exI[of _ "e1 @ e2"] exI[of _ "Suc k"] exI[of _ drive_id] conjI)
    qed
  qed
qed

end
